theory Spec2Isabelle
  imports Main "HOL-Library.Multiset" "HOL-Library.Sublist" "HOL-Library.List_Lexorder"
    "HOL-Library.Code_Target_Nat"
begin

section \<open>Strings\<close>

text \<open>
  A JavaScript string is modelled as the list of its code points, which is what
  \<^verbatim>\<open>for (const char of code)\<close> iterates over.  Every character the program looks
  at by value (the separators, the digits, the white space removed by \<^verbatim>\<open>trim\<close>) lies in
  the Basic Multilingual Plane outside the surrogate range, so splitting, trimming and
  the two regular expressions act on code points exactly as they act on UTF-16 code units.
  The fixed error messages of the program are written as HOL string literals.
\<close>

type_synonym jschar = nat
type_synonym jsstring = "jschar list"

definition str :: "string \<Rightarrow> jsstring" where
  "str s = map of_char s"

definition is_digit :: "jschar \<Rightarrow> bool" where
  \<comment> \<open>the class \<^verbatim>\<open>\d\<close>: U+0030 to U+0039\<close>
  "is_digit c = (48 \<le> c \<and> c \<le> 57)"

section \<open>The trie\<close>

text \<open>
  The object passed to \<^verbatim>\<open>Trie.insert\<close> by its only caller has the four fields
  \<^verbatim>\<open>char\<close>, \<^verbatim>\<open>def\<close>, \<^verbatim>\<open>cantonese\<close>, \<^verbatim>\<open>pinyin\<close>; the object stored in a node is
  \<^verbatim>\<open>{ ...data, code }\<close>.  The field \<^verbatim>\<open>cantonese\<close> is read as \<^verbatim>\<open>columns[1]\<close> without a test,
  so it may be \<^verbatim>\<open>undefined\<close> as far as its type goes.
\<close>

record chardata =
  char :: jsstring
  def :: jsstring
  cantonese :: "jsstring option"
  pinyin :: jsstring

record entry = chardata +
  code :: jsstring

definition stamp :: "jsstring \<Rightarrow> chardata \<Rightarrow> entry" where
  \<comment> \<open>\<^verbatim>\<open>{ ...data, code }\<close>\<close>
  "stamp c d = \<lparr>char = char d, def = def d, cantonese = cantonese d, pinyin = pinyin d, code = c\<rparr>"

text \<open>
  \<^verbatim>\<open>children\<close> is a plain object used as a dictionary from one-character strings to nodes.
  It is modelled as the list of its own properties in the order \<^verbatim>\<open>for ... in\<close> visits them:
  keys that are array indices (here the ten digits) in ascending numeric order first, then
  the other keys in the order they were created.
\<close>

datatype TrieNode = TrieNode (children: "(jschar \<times> TrieNode) list") (characters: "entry list")

datatype Trie = Trie (root: TrieNode)

definition new_TrieNode :: TrieNode where
  "new_TrieNode = TrieNode [] []"

definition new_Trie :: Trie where
  "new_Trie = Trie new_TrieNode"

fun own_create :: "jschar \<Rightarrow> 'v \<Rightarrow> (jschar \<times> 'v) list \<Rightarrow> (jschar \<times> 'v) list" where
  "own_create k v [] = [(k, v)]"
| "own_create k v ((k', v') # ps) =
     (if is_digit k \<and> (\<not> is_digit k' \<or> k < k') then (k, v) # (k', v') # ps
      else (k', v') # own_create k v ps)"

fun own_replace :: "jschar \<Rightarrow> 'v \<Rightarrow> (jschar \<times> 'v) list \<Rightarrow> (jschar \<times> 'v) list" where
  "own_replace k v [] = []"
| "own_replace k v ((k', v') # ps) =
     (if k = k' then (k, v) # ps else (k', v') # own_replace k v ps)"

definition own_put :: "jschar \<Rightarrow> 'v \<Rightarrow> (jschar \<times> 'v) list \<Rightarrow> (jschar \<times> 'v) list" where
  \<comment> \<open>\<^verbatim>\<open>obj[k] = v\<close>: an existing property keeps its place, a new one is created\<close>
  "own_put k v ps = (case map_of ps k of Some _ \<Rightarrow> own_replace k v ps | None \<Rightarrow> own_create k v ps)"

fun insert_node :: "jsstring \<Rightarrow> entry \<Rightarrow> TrieNode \<Rightarrow> TrieNode" where
  "insert_node [] e (TrieNode ch cs) = TrieNode ch (cs @ [e])"
| "insert_node (c # rest) e (TrieNode ch cs) =
     (let child = (case map_of ch c of None \<Rightarrow> new_TrieNode | Some n \<Rightarrow> n)
      in TrieNode (own_put c (insert_node rest e child) ch) cs)"

definition Trie_insert :: "jsstring \<Rightarrow> chardata \<Rightarrow> Trie \<Rightarrow> Trie" where
  "Trie_insert c d t = (if c = [] then t else Trie (insert_node c (stamp c d) (root t)))"

fun collectAll :: "TrieNode \<Rightarrow> entry list" where
  "collectAll (TrieNode ch cs) = cs @ concat (map (\<lambda>(k, n). collectAll n) ch)"

fun search_node :: "jsstring \<Rightarrow> TrieNode \<Rightarrow> entry list" where
  "search_node [] n = collectAll n"
| "search_node (c # rest) n =
     (case map_of (children n) c of None \<Rightarrow> [] | Some n' \<Rightarrow> search_node rest n')"

definition Trie_search :: "Trie \<Rightarrow> jsstring \<Rightarrow> entry list" where
  "Trie_search t pre = search_node pre (root t)"

section \<open>Reading the data set\<close>

definition is_space :: "jschar \<Rightarrow> bool" where
  \<comment> \<open>what \<^verbatim>\<open>String.prototype.trim\<close> removes: WhiteSpace and LineTerminator of ECMAScript\<close>
  "is_space c = (c \<in> set [9, 10, 11, 12, 13, 32, 160, 5760, 8192, 8193, 8194, 8195, 8196, 8197,
                            8198, 8199, 8200, 8201, 8202, 8232, 8233, 8239, 8287, 12288, 65279])"

definition trim :: "jsstring \<Rightarrow> jsstring" where
  "trim s = rev (dropWhile is_space (rev (dropWhile is_space s)))"

fun split_acc :: "jschar \<Rightarrow> jsstring \<Rightarrow> jsstring \<Rightarrow> jsstring list" where
  "split_acc d acc [] = [rev acc]"
| "split_acc d acc (c # cs) =
     (if c = d then rev acc # split_acc d [] cs else split_acc d (c # acc) cs)"

definition split :: "jschar \<Rightarrow> jsstring \<Rightarrow> jsstring list" where
  \<comment> \<open>\<^verbatim>\<open>s.split(d)\<close> for a separator of one character\<close>
  "split d s = split_acc d [] s"

definition newline :: jschar where "newline = 10"
definition bar :: jschar where "bar = 124"

definition js_index :: "'a list \<Rightarrow> int \<Rightarrow> 'a option" where
  \<comment> \<open>\<^verbatim>\<open>xs[i]\<close>, with \<^verbatim>\<open>undefined\<close> as \<open>None\<close>\<close>
  "js_index xs i = (if 0 \<le> i \<and> i < int (length xs) then Some (xs ! nat i) else None)"

definition truthy :: "jsstring option \<Rightarrow> bool" where
  "truthy v = (case v of None \<Rightarrow> False | Some s \<Rightarrow> s \<noteq> [])"

definition re_code45 :: "jsstring \<Rightarrow> bool" where
  \<comment> \<open>\<^verbatim>\<open>/^\d{4,5}$/.test(s)\<close>\<close>
  "re_code45 s = ((length s = 4 \<or> length s = 5) \<and> list_all is_digit s)"

definition re_digits :: "jsstring \<Rightarrow> bool" where
  \<comment> \<open>\<^verbatim>\<open>/^\d+$/.test(s)\<close>\<close>
  "re_digits s = (s \<noteq> [] \<and> list_all is_digit s)"

fun find_column :: "jsstring list \<Rightarrow> nat \<Rightarrow> int" where
  \<comment> \<open>the inner loop, from column \<open>j\<close> on; \<open>-1\<close> is the initial value of \<^verbatim>\<open>codeIndex\<close>\<close>
  "find_column [] j = - 1"
| "find_column (c # cs) j = (if re_code45 c then int j else find_column cs (Suc j))"

fun detect_loop :: "jsstring list \<Rightarrow> int" where
  "detect_loop [] = - 1"
| "detect_loop (l # ls) =
     (let cols = split bar l in
      if length cols < 5 then detect_loop ls
      else (let codeIndex = find_column cols 0 in
            if codeIndex \<noteq> - 1 then codeIndex else detect_loop ls))"

definition detectCodeIndex :: "jsstring list \<Rightarrow> int" where
  "detectCodeIndex lines = detect_loop (take (min (length lines) 50) lines)"

definition or_empty :: "jsstring option \<Rightarrow> jsstring" where
  \<comment> \<open>\<^verbatim>\<open>v || ""\<close>\<close>
  "or_empty v = (case v of None \<Rightarrow> [] | Some s \<Rightarrow> if s = [] then [] else s)"

definition row_accepted :: "int \<Rightarrow> jsstring \<Rightarrow> bool" where
  \<comment> \<open>the condition of the \<^verbatim>\<open>if\<close> in the second loop, on the trimmed line; \<^verbatim>\<open>&&\<close> does not
      evaluate the regular expression when \<^verbatim>\<open>code\<close> is undefined or empty\<close>
  "row_accepted codeIndex line =
     (let columns = split bar line;
          char = js_index columns 0;
          definition = or_empty (js_index columns 2);
          pinyin = js_index columns 9;
          code = js_index columns codeIndex
      in truthy char \<and> truthy code \<and> re_digits (the code) \<and> definition \<noteq> [] \<and> truthy pinyin)"

definition row_data :: "jsstring \<Rightarrow> chardata" where
  \<comment> \<open>the object literal passed to \<^verbatim>\<open>insert\<close>; it is only built for an accepted row, where
      \<^verbatim>\<open>char\<close> and \<^verbatim>\<open>pinyin\<close> are strings\<close>
  "row_data line =
     (let columns = split bar line;
          char = js_index columns 0;
          cantonese = js_index columns 1;
          definition = or_empty (js_index columns 2);
          pinyin = js_index columns 9
      in \<lparr>char = the char, def = definition, cantonese = cantonese, pinyin = the pinyin\<rparr>)"

definition process_line :: "int \<Rightarrow> Trie \<times> nat \<Rightarrow> jsstring \<Rightarrow> Trie \<times> nat" where
  \<comment> \<open>one round of the second loop on the pair of \<^verbatim>\<open>newTrie\<close> and \<^verbatim>\<open>count\<close>\<close>
  "process_line codeIndex s raw =
     (let line = trim raw in
      if line = [] then s
      else if row_accepted codeIndex line
           then (Trie_insert (the (js_index (split bar line) codeIndex)) (row_data line) (fst s),
                 snd s + 1)
           else s)"

definition process_lines :: "int \<Rightarrow> jsstring list \<Rightarrow> Trie \<times> nat" where
  "process_lines codeIndex lines = foldl (process_line codeIndex) (new_Trie, 0) lines"

datatype js_error = Error (message: string)

definition processCSV_try :: "jsstring \<Rightarrow> js_error + Trie \<times> nat" where
  \<comment> \<open>the body of the \<^verbatim>\<open>try\<close> block up to the state setters\<close>
  "processCSV_try text =
     (let lines = split newline text;
          codeIndex = detectCodeIndex lines
      in if codeIndex = - 1
         then Inl (Error ''Could not automatically detect the Four Corner Code column in the CSV.'')
         else Inr (process_lines codeIndex lines))"

section \<open>The application state\<close>

record AppState =
  trie :: "Trie option"
  inputCode :: jsstring
  results :: "entry list"
  selectedChar :: "entry option"
  loading :: bool
  error :: "string option"
  datasetSize :: nat
  showUploader :: bool
  isFullscreen :: bool

definition initial_state :: AppState where
  "initial_state = \<lparr>trie = None, inputCode = [], results = [], selectedChar = None, loading = True,
                     error = None, datasetSize = 0, showUploader = False, isFullscreen = False\<rparr>"

definition processCSV_catch :: "AppState \<Rightarrow> js_error \<Rightarrow> AppState" where
  "processCSV_catch st err =
     st\<lparr>error := Some (if message err = [] then ''Failed to process data.'' else message err),
        loading := False, showUploader := True\<rparr>"

definition processCSV :: "AppState \<Rightarrow> jsstring \<Rightarrow> AppState" where
  "processCSV st text =
     (case processCSV_try text of
        Inr (newTrie, cnt) \<Rightarrow>
          st\<lparr>trie := Some newTrie, datasetSize := cnt, loading := False, error := None,
             showUploader := False\<rparr>
      | Inl err \<Rightarrow> processCSV_catch st err)"

section \<open>The search effect\<close>

text \<open>
  \<^verbatim>\<open>Array.prototype.sort\<close> is stable, so for a consistent comparison function its result is
  the one of a stable insertion sort.  It sorts the array that \<^verbatim>\<open>search\<close> returns, which
  \<^verbatim>\<open>collectAll\<close> builds as a copy, so the index is not changed by it.
  \<^verbatim>\<open>String.prototype.localeCompare\<close> belongs to the platform: it is the parameter \<open>lc\<close> of
  the definitions below.
\<close>

fun insort_cmp :: "('a \<Rightarrow> 'a \<Rightarrow> int) \<Rightarrow> 'a \<Rightarrow> 'a list \<Rightarrow> 'a list" where
  "insort_cmp f x [] = [x]"
| "insort_cmp f x (y # ys) = (if f x y \<le> 0 then x # y # ys else y # insort_cmp f x ys)"

definition sort_cmp :: "('a \<Rightarrow> 'a \<Rightarrow> int) \<Rightarrow> 'a list \<Rightarrow> 'a list" where
  "sort_cmp f xs = foldr (insort_cmp f) xs []"

definition compare_results :: "(jsstring \<Rightarrow> jsstring \<Rightarrow> int) \<Rightarrow> jsstring \<Rightarrow> entry \<Rightarrow> entry \<Rightarrow> int" where
  "compare_results lc q a b =
     (if code a = q \<and> code b \<noteq> q then - 1
      else if code b = q \<and> code a \<noteq> q then 1
      else lc (code a) (code b))"

definition search_effect :: "(jsstring \<Rightarrow> jsstring \<Rightarrow> int) \<Rightarrow> AppState \<Rightarrow> AppState" where
  "search_effect lc st =
     (case trie st of
        None \<Rightarrow> st
      | Some t \<Rightarrow>
          if length (inputCode st) = 0 then st\<lparr>results := []\<rparr>
          else (let matches = sort_cmp (compare_results lc (inputCode st)) (Trie_search t (inputCode st))
                in st\<lparr>results := take 100 matches\<rparr>))"

section \<open>Notions used to state the properties\<close>

definition build :: "(jsstring \<times> chardata) list \<Rightarrow> Trie" where
  \<comment> \<open>an index obtained from \<^verbatim>\<open>new Trie()\<close> by a sequence of calls of \<^verbatim>\<open>insert\<close>\<close>
  "build ops = foldl (\<lambda>t (c, d). Trie_insert c d t) new_Trie ops"

fun total_records :: "TrieNode \<Rightarrow> nat" where
  \<comment> \<open>the sum of the lengths of the record lists of all nodes\<close>
  "total_records (TrieNode ch cs) = length cs + (\<Sum>(k, n)\<leftarrow>ch. total_records n)"

fun codes_ok :: "jsstring \<Rightarrow> TrieNode \<Rightarrow> bool" where
  \<comment> \<open>every record below the node reached by the path \<open>p\<close> carries the path to its own node as code\<close>
  "codes_ok p (TrieNode ch cs) =
     ((\<forall>e \<in> set cs. code e = p) \<and> (\<forall>(k, n) \<in> set ch. codes_ok (p @ [k]) n))"

definition column_present :: "jsstring list \<Rightarrow> nat \<Rightarrow> bool" where
  \<comment> \<open>the column exists and is not the empty string\<close>
  "column_present cols i = (i < length cols \<and> cols ! i \<noteq> [])"

definition detect_spec :: "jsstring list \<Rightarrow> nat option" where
  \<comment> \<open>column detection as the specification words it: among the first min(50, total) lines,
      split on the delimiter, without the lines of fewer than 5 columns, the first line that has
      a column of 4 or 5 digits, and in it the first such column\<close>
  "detect_spec lines =
     (let sample = map (split bar) (take (min 50 (length lines)) lines);
          rows = filter (\<lambda>cols. \<not> length cols < 5) sample
      in case find (\<lambda>cols. list_ex re_code45 cols) rows of
           None \<Rightarrow> None
         | Some cols \<Rightarrow> Some (length (takeWhile (\<lambda>c. \<not> re_code45 c) cols)))"

definition collates_digits :: "(jsstring \<Rightarrow> jsstring \<Rightarrow> int) \<Rightarrow> bool" where
  \<comment> \<open>what is used of \<^verbatim>\<open>localeCompare\<close>: on strings of ASCII digits, the only codes the reader
      stores, its sign is that of the comparison by code points\<close>
  "collates_digits lc =
     (\<forall>a b. re_digits a \<longrightarrow> re_digits b \<longrightarrow> ((lc a b < 0) = (a < b)) \<and> ((lc a b = 0) = (a = b)))"

definition compare_code_points :: "jsstring \<Rightarrow> jsstring \<Rightarrow> int" where
  \<comment> \<open>a comparison function with the property \<open>collates_digits\<close>\<close>
  "compare_code_points a b = (if a < b then - 1 else if a = b then 0 else 1)"

definition ordered_before :: "jsstring \<Rightarrow> entry \<Rightarrow> entry \<Rightarrow> bool" where
  \<comment> \<open>the order of the result list for the query \<open>q\<close>: an exact match is never after a record
      that is not one, and records of equal exact-match status ascend by code\<close>
  "ordered_before q a b =
     ((code b = q \<longrightarrow> code a = q) \<and> ((code a = q) = (code b = q) \<longrightarrow> code a \<le> code b))"

definition exact_first :: "jsstring \<Rightarrow> entry \<Rightarrow> entry \<Rightarrow> bool" where
  \<comment> \<open>the total preorder that the comparison function of the search effect decides on digit codes\<close>
  "exact_first q a b =
     ((code a = q \<and> code b \<noteq> q) \<or> ((code a = q) = (code b = q) \<and> code a \<le> code b))"

section \<open>Example inputs\<close>

definition sample_text :: jsstring where
  \<comment> \<open>five rows with the code in column 10: the third has no pinyin, the fourth a code that is not
      numeric, the fifth no Cantonese reading; the first glyph is U+672C\<close>
  "sample_text =
     26412 # str ''|bun2|root; origin|x|x|x|x|x|x|ben3|1022'' @ newline #
     str ''B|jat1|one|x|x|x|x|x|x|yi1|1000'' @ newline #
     str ''C|ji6|two|x|x|x|x|x|x||1010'' @ newline #
     str ''D|saam1|three|x|x|x|x|x|x|san1|10a0'' @ newline #
     str ''E||four|x|x|x|x|x|x|si4|10221'' @ newline # []"

definition sample_state :: AppState where
  "sample_state = processCSV initial_state sample_text"

definition crowded_state :: AppState where
  \<comment> \<open>101 records under one code, and a query that matches them all\<close>
  "crowded_state =
     initial_state\<lparr>trie := Some (build (replicate 101
         (str ''12'', \<lparr>char = str ''A'', def = str ''d'', cantonese = None, pinyin = str ''p''\<rparr>))),
       inputCode := str ''1''\<rparr>"

definition shuffled_state :: AppState where
  \<comment> \<open>an index value whose children are listed out of key order, so that the traversal returns
      the code 12 before the code 11\<close>
  "shuffled_state =
     initial_state\<lparr>trie := Some (Trie (TrieNode
         [(49, TrieNode
            [(50, TrieNode []
                [\<lparr>char = str ''B'', def = str ''e'', cantonese = None, pinyin = str ''q'', code = str ''12''\<rparr>]),
             (49, TrieNode []
                [\<lparr>char = str ''A'', def = str ''d'', cantonese = None, pinyin = str ''p'', code = str ''11''\<rparr>])]
            [])]
         [])),
       inputCode := str ''1''\<rparr>"

section \<open>Properties of the trie\<close>

lemma map_of_own_create:
  "map_of ps k = None \<Longrightarrow> map_of (own_create k v ps) = (map_of ps)(k \<mapsto> v)"
  by (induction ps) (auto simp: fun_eq_iff split: if_splits)

lemma map_of_own_replace:
  "map_of ps k = Some old \<Longrightarrow> map_of (own_replace k v ps) = (map_of ps)(k \<mapsto> v)"
  by (induction ps) (auto simp: fun_eq_iff split: if_splits)

lemma map_of_own_put: "map_of (own_put k v ps) = (map_of ps)(k \<mapsto> v)"
  by (simp add: own_put_def map_of_own_create map_of_own_replace split: option.splits)

lemma set_own_put: "set (own_put k v ps) \<subseteq> insert (k, v) (set ps)"
proof -
  have "set (own_create k v ps) \<subseteq> insert (k, v) (set ps)"
    by (induction ps) (auto split: if_splits)
  moreover have "set (own_replace k v ps) \<subseteq> insert (k, v) (set ps)"
    by (induction ps) (auto split: if_splits)
  ultimately show ?thesis
    by (simp add: own_put_def split: option.splits)
qed

lemma sum_own_create:
  fixes g :: "'v \<Rightarrow> 'm::comm_monoid_add"
  shows "(\<Sum>(k', n)\<leftarrow>own_create k v ps. g n) = g v + (\<Sum>(k', n)\<leftarrow>ps. g n)"
  by (induction ps) (auto simp: ac_simps)

lemma sum_own_replace:
  fixes g :: "'v \<Rightarrow> 'm::comm_monoid_add"
  shows "map_of ps k = Some old \<Longrightarrow>
    (\<Sum>(k', n)\<leftarrow>own_replace k v ps. g n) + g old = g v + (\<Sum>(k', n)\<leftarrow>ps. g n)"
  by (induction ps) (auto simp: ac_simps split: if_splits)

lemma mset_collectAll:
  "mset (collectAll (TrieNode ch cs)) = mset cs + (\<Sum>(k, n)\<leftarrow>ch. mset (collectAll n))"
  by (simp add: mset_concat comp_def case_prod_unfold)

lemma collectAll_new [simp]: "collectAll new_TrieNode = []"
  by (simp add: new_TrieNode_def)

lemma mset_collectAll_insert_node:
  "mset (collectAll (insert_node w e n)) = add_mset e (mset (collectAll n))"
proof (induction w arbitrary: n)
  case Nil
  show ?case by (cases n) simp
next
  case (Cons c w)
  obtain ch cs where n: "n = TrieNode ch cs" by (cases n)
  show ?case
  proof (cases "map_of ch c")
    case None
    then show ?thesis
      using Cons.IH [of new_TrieNode]
      by (simp add: n mset_collectAll own_put_def sum_own_create del: collectAll.simps)
  next
    case (Some old)
    have "(\<Sum>(k, m)\<leftarrow>own_replace c (insert_node w e old) ch. mset (collectAll m)) + mset (collectAll old)
        = mset (collectAll (insert_node w e old)) + (\<Sum>(k, m)\<leftarrow>ch. mset (collectAll m))"
      using Some by (rule sum_own_replace)
    then have "(\<Sum>(k, m)\<leftarrow>own_replace c (insert_node w e old) ch. mset (collectAll m))
        = add_mset e (\<Sum>(k, m)\<leftarrow>ch. mset (collectAll m))"
      by (simp add: Cons.IH)
    then show ?thesis
      using Some by (simp add: n mset_collectAll own_put_def del: collectAll.simps)
  qed
qed

lemma search_node_new [simp]: "search_node w new_TrieNode = []"
  by (cases w) (simp_all add: new_TrieNode_def)

lemma mset_search_insert_node:
  "mset (search_node w (insert_node w e n)) = add_mset e (mset (search_node w n))"
proof (induction w arbitrary: n)
  case Nil
  show ?case by (simp add: mset_collectAll_insert_node)
next
  case (Cons c w)
  obtain ch cs where n: "n = TrieNode ch cs" by (cases n)
  show ?case
    by (cases "map_of ch c") (simp_all add: n map_of_own_put Cons.IH)
qed

lemma map_of_children_in:
  "map_of ch c = Some n \<Longrightarrow> set (collectAll n) \<subseteq> set (collectAll (TrieNode ch cs))"
  by (auto dest!: map_of_SomeD)

lemma set_search_node: "set (search_node w n) \<subseteq> set (collectAll n)"
proof (induction w arbitrary: n)
  case Nil
  show ?case by simp
next
  case (Cons c w)
  obtain ch cs where n: "n = TrieNode ch cs" by (cases n)
  show ?case
  proof (cases "map_of ch c")
    case None
    then show ?thesis by (simp add: n)
  next
    case (Some n')
    have "set (search_node w n') \<subseteq> set (collectAll n')" by (rule Cons.IH)
    also have "\<dots> \<subseteq> set (collectAll n)" unfolding n using Some by (rule map_of_children_in)
    finally show ?thesis using Some by (simp add: n)
  qed
qed

lemma codes_ok_new [simp]: "codes_ok p new_TrieNode"
  by (simp add: new_TrieNode_def)

lemma codes_ok_insert_node:
  "codes_ok p n \<Longrightarrow> code e = p @ w \<Longrightarrow> codes_ok p (insert_node w e n)"
proof (induction w arbitrary: p n)
  case Nil
  then show ?case by (cases n) simp
next
  case (Cons c w)
  obtain ch cs where n: "n = TrieNode ch cs" by (cases n)
  let ?child = "case map_of ch c of None \<Rightarrow> new_TrieNode | Some m \<Rightarrow> m"
  have "codes_ok (p @ [c]) ?child"
    using Cons.prems(1) by (auto simp: n split: option.splits dest!: map_of_SomeD)
  then have "codes_ok (p @ [c]) (insert_node w e ?child)"
    using Cons.prems(2) by (intro Cons.IH) simp_all
  then show ?case
    using Cons.prems(1) set_own_put [of c "insert_node w e ?child" ch] by (auto simp: n)
qed

lemma codes_ok_collectAll:
  "codes_ok p n \<Longrightarrow> e \<in> set (collectAll n) \<Longrightarrow> prefix p (code e)"
proof (induction n arbitrary: p)
  case (TrieNode ch cs)
  from TrieNode.prems(2) consider "e \<in> set cs" | k m where "(k, m) \<in> set ch" "e \<in> set (collectAll m)"
    by auto
  then show ?case
  proof cases
    case 1
    then show ?thesis using TrieNode.prems(1) by simp
  next
    case 2
    then have "codes_ok (p @ [k]) m" using TrieNode.prems(1) by auto
    then have "prefix (p @ [k]) (code e)"
      using 2 TrieNode.IH [of "(k, m)" m "p @ [k]"] by simp
    then show ?thesis by (rule append_prefixD)
  qed
qed

lemma codes_ok_search_node:
  "codes_ok p n \<Longrightarrow> e \<in> set (search_node w n) \<Longrightarrow> prefix (p @ w) (code e)"
proof (induction w arbitrary: p n)
  case Nil
  then show ?case by (simp add: codes_ok_collectAll)
next
  case (Cons c w)
  obtain ch cs where n: "n = TrieNode ch cs" by (cases n)
  from Cons.prems(2) obtain m where m: "map_of ch c = Some m" "e \<in> set (search_node w m)"
    by (cases "map_of ch c") (auto simp: n)
  then have "codes_ok (p @ [c]) m"
    using Cons.prems(1) by (auto simp: n dest!: map_of_SomeD)
  then have "prefix ((p @ [c]) @ w) (code e)" using m(2) by (rule Cons.IH)
  then show ?case by simp
qed

lemma total_records_collectAll: "total_records n = length (collectAll n)"
proof (induction n)
  case (TrieNode ch cs)
  have "(\<Sum>(k, n)\<leftarrow>ch. total_records n) = (\<Sum>(k, n)\<leftarrow>ch. length (collectAll n))"
    by (rule arg_cong [where f = sum_list], rule map_cong) (auto simp: TrieNode.IH)
  then show ?case
    by (simp add: length_concat comp_def case_prod_unfold)
qed

lemma total_records_insert_node: "total_records (insert_node w e n) = Suc (total_records n)"
proof -
  have "size (mset (collectAll (insert_node w e n))) = Suc (size (mset (collectAll n)))"
    by (simp add: mset_collectAll_insert_node)
  then show ?thesis by (simp add: total_records_collectAll)
qed

lemma code_stamp [simp]: "code (stamp c d) = c"
  by (simp add: stamp_def)

lemma foldl_invariant:
  "P s \<Longrightarrow> (\<And>s x. P s \<Longrightarrow> P (f s x)) \<Longrightarrow> P (foldl f s xs)"
  by (induction xs arbitrary: s) simp_all

lemma codes_ok_Trie_insert: "codes_ok [] (root t) \<Longrightarrow> codes_ok [] (root (Trie_insert c d t))"
  using codes_ok_insert_node [of "[]" "root t" "stamp c d" c]
  by (simp add: Trie_insert_def)

lemma codes_ok_build: "codes_ok [] (root (build ops))"
  unfolding build_def
  by (rule foldl_invariant [where P = "\<lambda>t. codes_ok [] (root t)"])
     (auto simp: new_Trie_def codes_ok_Trie_insert)

section \<open>Properties of the reader\<close>

lemma row_accepted_code:
  "row_accepted idx line \<Longrightarrow> \<exists>c. js_index (split bar line) idx = Some c \<and> re_digits c"
  by (auto simp: row_accepted_def Let_def truthy_def split: option.splits)

lemma process_line_if:
  "process_line idx s raw =
     (if trim raw \<noteq> [] \<and> row_accepted idx (trim raw)
      then (Trie_insert (the (js_index (split bar (trim raw)) idx)) (row_data (trim raw)) (fst s),
            Suc (snd s))
      else s)"
  by (simp add: process_line_def Let_def)

lemma set_collectAll_insert_node:
  "set (collectAll (insert_node w e n)) = insert e (set (collectAll n))"
proof -
  have "set_mset (mset (collectAll (insert_node w e n))) = insert e (set_mset (mset (collectAll n)))"
    by (simp only: mset_collectAll_insert_node set_mset_add_mset_insert)
  then show ?thesis by simp
qed

lemma process_line_count:
  assumes "snd s = total_records (root (fst s))"
  shows "snd (process_line idx s raw) = total_records (root (fst (process_line idx s raw)))"
proof (cases "trim raw \<noteq> [] \<and> row_accepted idx (trim raw)")
  case True
  then obtain c where "js_index (split bar (trim raw)) idx = Some c" "re_digits c"
    using row_accepted_code by blast
  then show ?thesis
    using True assms
    by (simp add: process_line_if Trie_insert_def re_digits_def total_records_insert_node)
next
  case False
  then show ?thesis using assms by (auto simp: process_line_if)
qed

lemma process_line_digits:
  assumes "\<forall>e \<in> set (collectAll (root (fst s))). re_digits (code e)"
  shows "\<forall>e \<in> set (collectAll (root (fst (process_line idx s raw)))). re_digits (code e)"
proof (cases "trim raw \<noteq> [] \<and> row_accepted idx (trim raw)")
  case True
  then obtain c where "js_index (split bar (trim raw)) idx = Some c" "re_digits c"
    using row_accepted_code by blast
  then show ?thesis
    using True assms
    by (simp add: process_line_if Trie_insert_def re_digits_def set_collectAll_insert_node)
next
  case False
  then show ?thesis using assms by (auto simp: process_line_if)
qed

lemma process_lines_count:
  "snd (process_lines idx lines) = total_records (root (fst (process_lines idx lines)))"
  unfolding process_lines_def
  by (rule foldl_invariant [where P = "\<lambda>s. snd s = total_records (root (fst s))"])
     (simp_all add: new_Trie_def new_TrieNode_def process_line_count)

lemma process_lines_digits:
  "\<forall>e \<in> set (collectAll (root (fst (process_lines idx lines)))). re_digits (code e)"
  unfolding process_lines_def
  by (rule foldl_invariant
        [where P = "\<lambda>s. \<forall>e \<in> set (collectAll (root (fst s))). re_digits (code e)"])
     (simp_all add: new_Trie_def new_TrieNode_def process_line_digits)

lemma processCSV_try_Inr:
  "processCSV_try text = Inr (t, n) \<Longrightarrow>
     (t, n) = process_lines (detectCodeIndex (split newline text)) (split newline text)"
  by (simp add: processCSV_try_def Let_def split: if_splits)

lemma process_lines_none:
  "\<forall>raw \<in> set lines. trim raw = [] \<or> \<not> row_accepted idx (trim raw) \<Longrightarrow>
     foldl (process_line idx) s lines = s"
  by (induction lines arbitrary: s) (auto simp: process_line_if)

lemma find_column_spec:
  "find_column cols j =
     (if list_ex re_code45 cols then int (j + length (takeWhile (\<lambda>c. \<not> re_code45 c) cols)) else - 1)"
  by (induction cols arbitrary: j) simp_all

lemma detect_loop_spec:
  "detect_loop ls =
     (case find (\<lambda>cols. list_ex re_code45 cols) (filter (\<lambda>cols. \<not> length cols < 5) (map (split bar) ls)) of
        None \<Rightarrow> - 1
      | Some cols \<Rightarrow> int (length (takeWhile (\<lambda>c. \<not> re_code45 c) cols)))"
  by (induction ls) (simp_all add: Let_def find_column_spec)

lemma detectCodeIndex_spec:
  "detectCodeIndex lines = (case detect_spec lines of None \<Rightarrow> - 1 | Some j \<Rightarrow> int j)"
  by (simp add: detectCodeIndex_def detect_spec_def detect_loop_spec Let_def min.commute
           split: option.splits)

lemma detectCodeIndex_take: "detectCodeIndex lines = detectCodeIndex (take 50 lines)"
  by (simp add: detectCodeIndex_def min_def)

lemma js_index_present:
  "truthy (js_index cols (int i)) = column_present cols i"
  by (simp add: truthy_def js_index_def column_present_def)

lemma js_index_nat: "i < length cols \<Longrightarrow> js_index cols (int i) = Some (cols ! i)"
  by (simp add: js_index_def)

lemma or_empty_present:
  "(or_empty (js_index cols (int i)) \<noteq> []) = column_present cols i"
  by (simp add: or_empty_def js_index_def column_present_def)

lemma row_accepted_iff:
  "row_accepted (int j) line =
    (let cols = split bar line in
     column_present cols 0 \<and> column_present cols j \<and> list_all is_digit (cols ! j) \<and>
     column_present cols 2 \<and> column_present cols 9)"
  using js_index_present [of "split bar line" 0] js_index_present [of "split bar line" 9]
    js_index_present [of "split bar line" j] or_empty_present [of "split bar line" 2]
    js_index_nat [of j "split bar line"]
  by (auto simp: row_accepted_def Let_def re_digits_def column_present_def)

section \<open>Properties of the ordering\<close>

lemma set_insort_cmp: "set (insort_cmp f x xs) = insert x (set xs)"
  by (induction xs) auto

lemma mset_insort_cmp: "mset (insort_cmp f x xs) = add_mset x (mset xs)"
  by (induction xs) auto

lemma mset_sort_cmp: "mset (sort_cmp f xs) = mset xs"
  by (induction xs) (simp_all add: sort_cmp_def mset_insort_cmp)

lemma set_sort_cmp: "set (sort_cmp f xs) = set xs"
proof -
  have "set_mset (mset (sort_cmp f xs)) = set_mset (mset xs)"
    by (simp only: mset_sort_cmp)
  then show ?thesis by simp
qed

lemma sorted_wrt_insort_cmp:
  assumes cmp: "\<And>a b. a \<in> A \<Longrightarrow> b \<in> A \<Longrightarrow> (f a b \<le> 0) = R a b"
    and trans: "\<And>a b c. a \<in> A \<Longrightarrow> b \<in> A \<Longrightarrow> c \<in> A \<Longrightarrow> R a b \<Longrightarrow> R b c \<Longrightarrow> R a c"
    and total: "\<And>a b. a \<in> A \<Longrightarrow> b \<in> A \<Longrightarrow> R a b \<or> R b a"
  shows "x \<in> A \<Longrightarrow> set xs \<subseteq> A \<Longrightarrow> sorted_wrt R xs \<Longrightarrow> sorted_wrt R (insort_cmp f x xs)"
proof (induction xs)
  case Nil
  then show ?case by simp
next
  case (Cons y ys)
  from Cons.prems have x: "x \<in> A" and y: "y \<in> A" and ys: "set ys \<subseteq> A"
    and y_ys: "\<forall>z \<in> set ys. R y z" and s_ys: "sorted_wrt R ys"
    by simp_all
  show ?case
  proof (cases "f x y \<le> 0")
    case True
    then have xy: "R x y" using cmp [OF x y] by simp
    have "R x z" if "z \<in> set ys" for z
    proof -
      have "R y z" using y_ys that by simp
      moreover have "z \<in> A" using ys that by blast
      ultimately show ?thesis using trans [OF x y _ xy] by blast
    qed
    then show ?thesis using True xy y_ys s_ys by simp
  next
    case False
    then have "\<not> R x y" using cmp [OF x y] by simp
    then have yx: "R y x" using total [OF x y] by blast
    have "sorted_wrt R (insort_cmp f x ys)"
      using x ys s_ys by (rule Cons.IH)
    then show ?thesis using False yx y_ys by (simp add: set_insort_cmp)
  qed
qed

lemma sorted_wrt_sort_cmp:
  assumes cmp: "\<And>a b. a \<in> A \<Longrightarrow> b \<in> A \<Longrightarrow> (f a b \<le> 0) = R a b"
    and trans: "\<And>a b c. a \<in> A \<Longrightarrow> b \<in> A \<Longrightarrow> c \<in> A \<Longrightarrow> R a b \<Longrightarrow> R b c \<Longrightarrow> R a c"
    and total: "\<And>a b. a \<in> A \<Longrightarrow> b \<in> A \<Longrightarrow> R a b \<or> R b a"
  shows "set xs \<subseteq> A \<Longrightarrow> sorted_wrt R (sort_cmp f xs)"
proof (induction xs)
  case Nil
  show ?case by (simp add: sort_cmp_def)
next
  case (Cons x xs)
  from Cons.prems have x: "x \<in> A" and xs: "set xs \<subseteq> A" by simp_all
  have sub: "set (sort_cmp f xs) \<subseteq> A" using xs by (simp add: set_sort_cmp)
  have "sorted_wrt R (insort_cmp f x (sort_cmp f xs))"
  proof (rule sorted_wrt_insort_cmp [where A = A])
    show "(f a b \<le> 0) = R a b" if "a \<in> A" "b \<in> A" for a b
      using that by (rule cmp)
    show "R a c" if "a \<in> A" "b \<in> A" "c \<in> A" "R a b" "R b c" for a b c
      using that by (rule trans)
    show "R a b \<or> R b a" if "a \<in> A" "b \<in> A" for a b
      using that by (rule total)
    show "x \<in> A" by (rule x)
    show "set (sort_cmp f xs) \<subseteq> A" by (rule sub)
    show "sorted_wrt R (sort_cmp f xs)" using xs by (rule Cons.IH)
  qed
  then show ?case by (simp add: sort_cmp_def)
qed

lemma compare_results_le:
  assumes "collates_digits lc" "re_digits (code a)" "re_digits (code b)"
  shows "(compare_results lc q a b \<le> 0) = exact_first q a b"
proof -
  from assms have lt: "(lc (code a) (code b) < 0) = (code a < code b)"
    and eq: "(lc (code a) (code b) = 0) = (code a = code b)"
    unfolding collates_digits_def by blast+
  have "(lc (code a) (code b) \<le> 0) = (lc (code a) (code b) < 0 \<or> lc (code a) (code b) = 0)"
    by linarith
  also have "\<dots> = (code a \<le> code b)"
    unfolding lt eq by (rule le_less [symmetric])
  finally have "(lc (code a) (code b) \<le> 0) = (code a \<le> code b)" .
  then show ?thesis
    by (auto simp: compare_results_def exact_first_def)
qed

lemma exact_first_ordered: "exact_first q a b \<Longrightarrow> ordered_before q a b"
  by (auto simp: exact_first_def ordered_before_def)

lemma sorted_matches:
  assumes "collates_digits lc" and "\<forall>e \<in> set xs. re_digits (code e)"
  shows "sorted_wrt (ordered_before q) (sort_cmp (compare_results lc q) xs)"
proof -
  have "sorted_wrt (exact_first q) (sort_cmp (compare_results lc q) xs)"
  proof (rule sorted_wrt_sort_cmp [where A = "{e. re_digits (code e)}"])
    show "(compare_results lc q a b \<le> 0) = exact_first q a b"
      if "a \<in> {e. re_digits (code e)}" "b \<in> {e. re_digits (code e)}" for a b
      using that assms(1) by (simp add: compare_results_le)
    show "exact_first q a c" if "exact_first q a b" "exact_first q b c" for a b c
      using that by (auto simp: exact_first_def)
    show "exact_first q a b \<or> exact_first q b a" for a b
      by (auto simp: exact_first_def)
    show "set xs \<subseteq> {e. re_digits (code e)}"
      using assms(2) by auto
  qed
  then show ?thesis
    by (rule sorted_wrt_mono_rel [rotated]) (simp add: exact_first_ordered)
qed

lemma ingested_codes_digits:
  assumes "processCSV_try text = Inr (t, n)"
  shows "\<forall>e \<in> set (Trie_search t q). re_digits (code e)"
proof -
  from assms have "(t, n) = process_lines (detectCodeIndex (split newline text)) (split newline text)"
    by (rule processCSV_try_Inr)
  then have "\<forall>e \<in> set (collectAll (root t)). re_digits (code e)"
    using process_lines_digits [of "detectCodeIndex (split newline text)" "split newline text"]
    by (metis fst_conv)
  then show ?thesis
    using set_search_node [of q "root t"] by (auto simp: Trie_search_def)
qed

lemma collates_compare_code_points: "collates_digits compare_code_points"
  by (auto simp: collates_digits_def compare_code_points_def)

section \<open>Facts about the example inputs\<close>

lemma processCSV_success:
  "processCSV_try text = Inr (t, n) \<Longrightarrow>
     processCSV st text
       = st\<lparr>trie := Some t, datasetSize := n, loading := False, error := None, showUploader := False\<rparr>"
  by (simp add: processCSV_def)

lemma inputCode_processCSV: "inputCode (processCSV st text) = inputCode st"
  by (simp add: processCSV_def processCSV_catch_def split: sum.splits prod.splits)

lemma sample_detect: "detectCodeIndex (split newline sample_text) = 10"
  by code_simp

lemma sample_try:
  "processCSV_try sample_text
     = Inr (fst (process_lines 10 (split newline sample_text)),
            snd (process_lines 10 (split newline sample_text)))"
  by (simp add: processCSV_try_def Let_def sample_detect)

lemma sample_trie:
  "trie sample_state = Some (fst (process_lines 10 (split newline sample_text)))"
  by (simp add: sample_state_def processCSV_success [OF sample_try])

section \<open>The claims\<close>

text \<open>
  Claim C1, as amended.  \<^verbatim>\<open>Trie.search\<close> has no test for the empty prefix: called with the empty
  string it returns every record stored in the index.  The empty answer to an empty query comes
  from the search effect: with an index loaded and the query empty it sets the result list to
  the empty sequence and does not call \<^verbatim>\<open>Trie.search\<close>.  The claim as stated, that a search
  with the empty prefix returns nothing whatever the index holds, is refuted by an index of one
  record.
\<close>

theorem empty_query:
  assumes "trie st = Some t" and "inputCode st = []"
  shows "search_effect lc st = st\<lparr>results := []\<rparr> \<and> Trie_search t [] = collectAll (root t)"
  using assms by (simp add: search_effect_def Trie_search_def)

theorem empty_query_witness:
  "trie sample_state = Some (fst (process_lines 10 (split newline sample_text))) \<and>
   inputCode sample_state = [] \<and>
   results (search_effect compare_code_points sample_state) = [] \<and>
   length (Trie_search (fst (process_lines 10 (split newline sample_text))) []) = 3"
proof -
  have i: "inputCode sample_state = []"
    by (simp add: sample_state_def inputCode_processCSV initial_state_def)
  have n: "length (collectAll (root (fst (process_lines 10 (split newline sample_text))))) = 3"
    by code_simp
  from empty_query [OF sample_trie i, of compare_code_points] n show ?thesis
    using sample_trie i by simp
qed

theorem trie_search_empty_prefix_counterexample:
  "Trie_search
     (Trie_insert (str ''1'') \<lparr>char = str ''a'', def = str ''d'', cantonese = None, pinyin = str ''p''\<rparr>
        new_Trie) []
   \<noteq> []"
  by code_simp

text \<open>
  Claim C2.  In the result list shown for a query, a record whose code equals the query is never
  after one whose code does not, and records of equal exact-match status ascend in the
  lexical order of their codes by code point.  This holds for every index whose matched codes
  are strings of ASCII digits, in whatever order the traversal returns them; every index that
  the reader builds is of this kind (lemma \<open>ingested_codes_digits\<close>).  \<^verbatim>\<open>localeCompare\<close> is
  taken to order such strings by code point.
\<close>

theorem results_ordered:
  assumes "collates_digits lc" and "trie st = Some t"
    and "\<forall>e \<in> set (Trie_search t (inputCode st)). re_digits (code e)"
  shows "sorted_wrt (ordered_before (inputCode st)) (results (search_effect lc st))"
proof (cases "inputCode st = []")
  case True
  then show ?thesis using assms(2) by (simp add: search_effect_def)
next
  case False
  have "sorted_wrt (ordered_before (inputCode st))
          (sort_cmp (compare_results lc (inputCode st)) (Trie_search t (inputCode st)))"
    using assms(1,3) by (rule sorted_matches)
  then have "sorted_wrt (ordered_before (inputCode st))
          (take 100 (sort_cmp (compare_results lc (inputCode st)) (Trie_search t (inputCode st))))"
    by (rule sorted_wrt_take)
  then show ?thesis using False assms(2) by (simp add: search_effect_def Let_def)
qed

theorem results_ordered_witness:
  "collates_digits compare_code_points \<and>
   trie shuffled_state = Some (the (trie shuffled_state)) \<and>
   list_all (\<lambda>e. re_digits (code e))
     (Trie_search (the (trie shuffled_state)) (inputCode shuffled_state)) \<and>
   map code (Trie_search (the (trie shuffled_state)) (inputCode shuffled_state))
     = [str ''12'', str ''11''] \<and>
   sorted_wrt (ordered_before (inputCode shuffled_state))
     (results (search_effect compare_code_points shuffled_state)) \<and>
   map code (results (search_effect compare_code_points shuffled_state))
     = [str ''11'', str ''12''] \<and>
   trie (sample_state\<lparr>inputCode := str ''1022''\<rparr>)
     = Some (fst (process_lines 10 (split newline sample_text))) \<and>
   list_all (\<lambda>e. re_digits (code e))
     (Trie_search (fst (process_lines 10 (split newline sample_text))) (str ''1022'')) \<and>
   sorted_wrt (ordered_before (str ''1022''))
     (results (search_effect compare_code_points (sample_state\<lparr>inputCode := str ''1022''\<rparr>))) \<and>
   map code (results (search_effect compare_code_points (sample_state\<lparr>inputCode := str ''1022''\<rparr>)))
     = [str ''1022'', str ''10221'']"
proof -
  let ?u = "the (trie shuffled_state)"
  have u: "trie shuffled_state = Some ?u"
    by (simp add: shuffled_state_def)
  have ud: "list_all (\<lambda>e. re_digits (code e)) (Trie_search ?u (inputCode shuffled_state))"
    by code_simp
  then have ud': "\<forall>e \<in> set (Trie_search ?u (inputCode shuffled_state)). re_digits (code e)"
    by (simp only: list_all_iff)
  have before: "map code (Trie_search ?u (inputCode shuffled_state)) = [str ''12'', str ''11'']"
    by code_simp
  have after: "map code (results (search_effect compare_code_points shuffled_state))
      = [str ''11'', str ''12'']"
    by code_simp
  have shuffled: "sorted_wrt (ordered_before (inputCode shuffled_state))
      (results (search_effect compare_code_points shuffled_state))"
    using collates_compare_code_points u ud' by (rule results_ordered)
  let ?st = "sample_state\<lparr>inputCode := str ''1022''\<rparr>"
  let ?t = "fst (process_lines 10 (split newline sample_text))"
  have t: "trie ?st = Some ?t"
    by (simp add: sample_trie)
  have td': "\<forall>e \<in> set (Trie_search ?t (inputCode ?st)). re_digits (code e)"
    using sample_try by (rule ingested_codes_digits)
  then have td: "list_all (\<lambda>e. re_digits (code e)) (Trie_search ?t (str ''1022''))"
    by (simp add: list_all_iff)
  have v: "map code (results (search_effect compare_code_points ?st)) = [str ''1022'', str ''10221'']"
    by code_simp
  have "sorted_wrt (ordered_before (inputCode ?st)) (results (search_effect compare_code_points ?st))"
    using collates_compare_code_points t td' by (rule results_ordered)
  then have sample: "sorted_wrt (ordered_before (str ''1022''))
      (results (search_effect compare_code_points ?st))"
    by simp
  show ?thesis
    using collates_compare_code_points u ud before after shuffled t td sample v
    by (simp only: simp_thms)
qed

text \<open>
  Claim C3.  Column detection looks at the first min(50, total) lines only, splits each at the
  delimiter, leaves out the lines of fewer than 5 columns, and returns the index of the first
  column of 4 or 5 ASCII digits in the first line that has one; this index is used for all rows.
  When no line of the sample has such a column, the run ends with the error message of the
  detection and the published index is left as it was.
\<close>

theorem column_detection:
  "detectCodeIndex lines = (case detect_spec lines of None \<Rightarrow> - 1 | Some j \<Rightarrow> int j) \<and>
   detectCodeIndex lines = detectCodeIndex (take 50 lines) \<and>
   (case detect_spec (split newline text) of
      Some j \<Rightarrow> processCSV_try text = Inr (process_lines (int j) (split newline text))
    | None \<Rightarrow>
        processCSV_try text
          = Inl (Error ''Could not automatically detect the Four Corner Code column in the CSV.'') \<and>
        processCSV st text
          = st\<lparr>error := Some ''Could not automatically detect the Four Corner Code column in the CSV.'',
               loading := False, showUploader := True\<rparr> \<and>
        trie (processCSV st text) = trie st)"
proof -
  have "detectCodeIndex lines = detectCodeIndex (take 50 lines)"
    by (rule detectCodeIndex_take)
  moreover have "case detect_spec (split newline text) of
      Some j \<Rightarrow> processCSV_try text = Inr (process_lines (int j) (split newline text))
    | None \<Rightarrow>
        processCSV_try text
          = Inl (Error ''Could not automatically detect the Four Corner Code column in the CSV.'') \<and>
        processCSV st text
          = st\<lparr>error := Some ''Could not automatically detect the Four Corner Code column in the CSV.'',
               loading := False, showUploader := True\<rparr> \<and>
        trie (processCSV st text) = trie st"
    by (simp add: processCSV_def processCSV_try_def processCSV_catch_def Let_def
          detectCodeIndex_spec [of "split newline text"] split: option.splits)
  ultimately show ?thesis by (simp add: detectCodeIndex_spec [of lines])
qed

theorem column_detection_witness:
  "detect_spec [str ''a|b'', 23383 # str ''|abc|def|x|x|x|x|x|x|9999'', str ''1|2|3|4|12345''] = Some 9 \<and>
   detectCodeIndex [str ''a|b'', 23383 # str ''|abc|def|x|x|x|x|x|x|9999'', str ''1|2|3|4|12345''] = 9 \<and>
   detect_spec (split newline (str ''a|b|c|d|123|123456'')) = None \<and>
   processCSV sample_state (str ''a|b|c|d|123|123456'')
     = sample_state\<lparr>error := Some ''Could not automatically detect the Four Corner Code column in the CSV.'',
         loading := False, showUploader := True\<rparr>"
proof -
  let ?lines = "[str ''a|b'', 23383 # str ''|abc|def|x|x|x|x|x|x|9999'', str ''1|2|3|4|12345'']"
  have a: "detect_spec ?lines = Some 9"
    by code_simp
  have b: "detect_spec (split newline (str ''a|b|c|d|123|123456'')) = None"
    by code_simp
  from column_detection [of ?lines "str ''a|b|c|d|123|123456''" sample_state]
  show ?thesis by (simp add: a b)
qed

text \<open>
  Claim C4.  A line that is not blank is accepted exactly when, in the trimmed line, column 0 is
  present, the code column is present and consists of digits only (of any number), column 2 is
  present and column 9 is present; column 1 plays no part.  An accepted line inserts one record
  and adds one to the count; a rejected line changes neither the index nor the count, and the
  loop goes on with the next line.
\<close>

theorem row_validation:
  assumes "trim raw \<noteq> []"
  shows "(let cols = split bar (trim raw) in
      (row_accepted (int j) (trim raw) \<longleftrightarrow>
         column_present cols 0 \<and> column_present cols j \<and> list_all is_digit (cols ! j) \<and>
         column_present cols 2 \<and> column_present cols 9) \<and>
      (row_accepted (int j) (trim raw) \<longrightarrow>
         process_line (int j) s raw
           = (Trie_insert (cols ! j)
                \<lparr>char = cols ! 0, def = cols ! 2, cantonese = Some (cols ! 1), pinyin = cols ! 9\<rparr>
                (fst s),
              snd s + 1)) \<and>
      (\<not> row_accepted (int j) (trim raw) \<longrightarrow>
         process_line (int j) s raw = s \<and>
         foldl (process_line (int j)) s (raw # rest) = foldl (process_line (int j)) s rest))"
proof -
  let ?cols = "split bar (trim raw)"
  have acc: "row_accepted (int j) (trim raw) \<longleftrightarrow>
         column_present ?cols 0 \<and> column_present ?cols j \<and> list_all is_digit (?cols ! j) \<and>
         column_present ?cols 2 \<and> column_present ?cols 9"
    by (simp add: row_accepted_iff Let_def)
  have ins: "process_line (int j) s raw
           = (Trie_insert (?cols ! j)
                \<lparr>char = ?cols ! 0, def = ?cols ! 2, cantonese = Some (?cols ! 1), pinyin = ?cols ! 9\<rparr>
                (fst s),
              snd s + 1)" if "row_accepted (int j) (trim raw)"
  proof -
    from that acc have len: "9 < length ?cols" "j < length ?cols" and d: "?cols ! 2 \<noteq> []"
      by (simp_all add: column_present_def)
    then have at: "js_index ?cols 0 = Some (?cols ! 0)" "js_index ?cols 1 = Some (?cols ! 1)"
      "js_index ?cols 2 = Some (?cols ! 2)" "js_index ?cols 9 = Some (?cols ! 9)"
      "js_index ?cols (int j) = Some (?cols ! j)"
      by (auto simp: js_index_def)
    show ?thesis
      using that assms d by (simp add: process_line_if row_data_def Let_def or_empty_def at)
  qed
  have rej: "process_line (int j) s raw = s" if "\<not> row_accepted (int j) (trim raw)"
    using that by (simp add: process_line_if)
  show ?thesis
    unfolding Let_def using acc ins rej by simp
qed

theorem row_validation_witness:
  "trim (str ''  A||root; origin|x|x|x|x|x|x|ben3|0'' @ [13]) \<noteq> [] \<and>
   row_accepted 10 (trim (str ''  A||root; origin|x|x|x|x|x|x|ben3|0'' @ [13])) \<and>
   process_line 10 (new_Trie, 0) (str ''  A||root; origin|x|x|x|x|x|x|ben3|0'' @ [13])
     = (Trie_insert (str ''0'')
          \<lparr>char = str ''A'', def = str ''root; origin'', cantonese = Some [], pinyin = str ''ben3''\<rparr>
          new_Trie, 1) \<and>
   trim (str ''A|bun2||x|x|x|x|x|x|ben3|1022'') \<noteq> [] \<and>
   \<not> row_accepted 10 (trim (str ''A|bun2||x|x|x|x|x|x|ben3|1022'')) \<and>
   process_line 10 (new_Trie, 0) (str ''A|bun2||x|x|x|x|x|x|ben3|1022'') = (new_Trie, 0)"
proof -
  let ?good = "str ''  A||root; origin|x|x|x|x|x|x|ben3|0'' @ [13]"
  let ?bad = "str ''A|bun2||x|x|x|x|x|x|ben3|1022''"
  have g: "trim ?good \<noteq> []" by code_simp
  have b: "trim ?bad \<noteq> []" by code_simp
  have ga: "row_accepted 10 (trim ?good)" by code_simp
  have ba: "\<not> row_accepted 10 (trim ?bad)" by code_simp
  have cols: "split bar (trim ?good)
      = [str ''A'', [], str ''root; origin'', str ''x'', str ''x'', str ''x'', str ''x'', str ''x'',
         str ''x'', str ''ben3'', str ''0'']"
    by code_simp
  from row_validation [OF g, of 10 "(new_Trie, 0)"] ga
  have "process_line 10 (new_Trie, 0) ?good
     = (Trie_insert (str ''0'')
          \<lparr>char = str ''A'', def = str ''root; origin'', cantonese = Some [], pinyin = str ''ben3''\<rparr>
          new_Trie, 1)"
    by (simp add: Let_def cols)
  moreover from row_validation [OF b, of 10 "(new_Trie, 0)"] ba
  have "process_line 10 (new_Trie, 0) ?bad = (new_Trie, 0)"
    by (simp add: Let_def)
  ultimately show ?thesis using g b ga ba by simp
qed

text \<open>
  Claim C5.  For a non-empty code \<open>c\<close>, after \<open>insert(c, r)\<close> the search for the prefix \<open>c\<close>
  returns the stored record (\<open>r\<close> with its code field set to \<open>c\<close>); after two insertions under
  the same code the search for this code returns both records, in addition to what it
  returned before, so duplicates are kept.
\<close>

theorem insert_then_search:
  assumes "c \<noteq> []"
  shows "stamp c r \<in> set (Trie_search (Trie_insert c r t) c) \<and>
         mset (Trie_search (Trie_insert c r' (Trie_insert c r t)) c)
           = add_mset (stamp c r') (add_mset (stamp c r) (mset (Trie_search t c)))"
proof -
  have one: "mset (Trie_search (Trie_insert c d u) c) = add_mset (stamp c d) (mset (Trie_search u c))"
    for d u
    using assms by (simp add: Trie_search_def Trie_insert_def mset_search_insert_node)
  have "set_mset (mset (Trie_search (Trie_insert c r t) c))
      = insert (stamp c r) (set_mset (mset (Trie_search t c)))"
    by (simp only: one set_mset_add_mset_insert)
  then have "stamp c r \<in> set (Trie_search (Trie_insert c r t) c)"
    by simp
  then show ?thesis by (simp add: one)
qed

theorem insert_then_search_witness:
  "str ''1022'' \<noteq> [] \<and>
   Trie_search
     (Trie_insert (str ''1022'')
        \<lparr>char = str ''B'', def = str ''root'', cantonese = Some (str ''bun2''), pinyin = str ''ben3''\<rparr>
        (Trie_insert (str ''1022'')
           \<lparr>char = str ''A'', def = str ''origin'', cantonese = None, pinyin = str ''ben3''\<rparr>
           new_Trie))
     (str ''1022'')
   = [\<lparr>char = str ''A'', def = str ''origin'', cantonese = None, pinyin = str ''ben3'',
        code = str ''1022''\<rparr>,
      \<lparr>char = str ''B'', def = str ''root'', cantonese = Some (str ''bun2''), pinyin = str ''ben3'',
        code = str ''1022''\<rparr>]"
  using insert_then_search [of "str ''1022''"
      "\<lparr>char = str ''A'', def = str ''origin'', cantonese = None, pinyin = str ''ben3''\<rparr>" new_Trie
      "\<lparr>char = str ''B'', def = str ''root'', cantonese = Some (str ''bun2''), pinyin = str ''ben3''\<rparr>"]
  by code_simp

text \<open>
  Claim C6.  When column detection succeeds the run ends in the ready state: a new index and the
  count of accepted rows are published, the loading flag and the error are cleared.  When no row
  is accepted the published index is the empty one and the count is zero.
\<close>

theorem ready_without_rows:
  assumes "detectCodeIndex (split newline text) \<noteq> - 1"
  shows "(let lines = split newline text; idx = detectCodeIndex lines in
          processCSV st text =
            st\<lparr>trie := Some (fst (process_lines idx lines)),
               datasetSize := snd (process_lines idx lines),
               loading := False, error := None, showUploader := False\<rparr>
          \<and> ((\<forall>raw \<in> set lines. trim raw = [] \<or> \<not> row_accepted idx (trim raw))
               \<longrightarrow> process_lines idx lines = (new_Trie, 0)))"
  using assms
  by (auto simp: Let_def processCSV_def processCSV_try_def process_lines_def process_lines_none
           split: prod.splits)

theorem ready_without_rows_witness:
  "detectCodeIndex (split newline (str ''a|b|c|d|1234'' @ newline # newline # str ''x|y'')) \<noteq> - 1 \<and>
   list_all (\<lambda>raw. trim raw = [] \<or> \<not> row_accepted 4 (trim raw))
     (split newline (str ''a|b|c|d|1234'' @ newline # newline # str ''x|y'')) \<and>
   processCSV initial_state (str ''a|b|c|d|1234'' @ newline # newline # str ''x|y'')
     = initial_state\<lparr>trie := Some new_Trie, datasetSize := 0, loading := False, error := None,
         showUploader := False\<rparr>"
proof -
  let ?text = "str ''a|b|c|d|1234'' @ newline # newline # str ''x|y''"
  have d: "detectCodeIndex (split newline ?text) = 4"
    by code_simp
  then have h: "detectCodeIndex (split newline ?text) \<noteq> - 1"
    by simp
  have none: "list_all (\<lambda>raw. trim raw = [] \<or> \<not> row_accepted 4 (trim raw)) (split newline ?text)"
    by code_simp
  then have "\<forall>raw \<in> set (split newline ?text). trim raw = [] \<or> \<not> row_accepted 4 (trim raw)"
    by (simp only: list_all_iff)
  with ready_without_rows [OF h, of initial_state]
  have "processCSV initial_state ?text
     = initial_state\<lparr>trie := Some new_Trie, datasetSize := 0, loading := False, error := None,
         showUploader := False\<rparr>"
    by (simp add: Let_def d)
  then show ?thesis using h none by simp
qed

text \<open>
  Claim C7.  For a non-empty query the result list is the first 100 entries of the ordered list
  of matches: exactly 100 entries, each the entry at the same position of the ordered list, when
  there are more than 100, and the whole ordered list otherwise.  The ordered list is a
  rearrangement of the matches in the order of claim C2, for an index whose codes are strings of
  digits, as those of every index the reader builds are.
\<close>

theorem results_truncated:
  assumes "trie st = Some t" and "inputCode st \<noteq> []"
    and "collates_digits lc" and "\<forall>e \<in> set (Trie_search t (inputCode st)). re_digits (code e)"
  shows "(let ordered = sort_cmp (compare_results lc (inputCode st)) (Trie_search t (inputCode st)) in
          mset ordered = mset (Trie_search t (inputCode st)) \<and>
          sorted_wrt (ordered_before (inputCode st)) ordered \<and>
          results (search_effect lc st) = take 100 ordered \<and>
          (100 < length ordered \<longrightarrow>
             length (results (search_effect lc st)) = 100 \<and>
             (\<forall>i < 100. results (search_effect lc st) ! i = ordered ! i)) \<and>
          (length ordered \<le> 100 \<longrightarrow> results (search_effect lc st) = ordered))"
proof -
  let ?ordered = "sort_cmp (compare_results lc (inputCode st)) (Trie_search t (inputCode st))"
  have "sorted_wrt (ordered_before (inputCode st)) ?ordered"
    using assms(3,4) by (rule sorted_matches)
  moreover have "results (search_effect lc st) = take 100 ?ordered"
    using assms(1,2) by (simp add: search_effect_def Let_def)
  ultimately show ?thesis
    by (simp add: Let_def mset_sort_cmp)
qed

theorem results_truncated_witness:
  "trie crowded_state = Some (the (trie crowded_state)) \<and>
   inputCode crowded_state \<noteq> [] \<and>
   collates_digits compare_code_points \<and>
   list_all (\<lambda>e. re_digits (code e)) (Trie_search (the (trie crowded_state)) (inputCode crowded_state)) \<and>
   length (Trie_search (the (trie crowded_state)) (inputCode crowded_state)) = 101 \<and>
   length (results (search_effect compare_code_points crowded_state)) = 100"
proof -
  let ?t = "the (trie crowded_state)"
  have t: "trie crowded_state = Some ?t"
    by (simp add: crowded_state_def)
  have q: "inputCode crowded_state \<noteq> []"
    by (simp add: crowded_state_def str_def)
  have both: "list_all (\<lambda>e. re_digits (code e)) (Trie_search ?t (inputCode crowded_state)) \<and>
      length (Trie_search ?t (inputCode crowded_state)) = 101"
    by code_simp
  then have digits: "list_all (\<lambda>e. re_digits (code e)) (Trie_search ?t (inputCode crowded_state))"
    and len: "length (Trie_search ?t (inputCode crowded_state)) = 101"
    by simp_all
  from digits have d: "\<forall>e \<in> set (Trie_search ?t (inputCode crowded_state)). re_digits (code e)"
    by (simp only: list_all_iff)
  let ?ordered = "sort_cmp (compare_results compare_code_points (inputCode crowded_state))
                    (Trie_search ?t (inputCode crowded_state))"
  have "size (mset ?ordered) = size (mset (Trie_search ?t (inputCode crowded_state)))"
    by (simp only: mset_sort_cmp)
  then have "length ?ordered = 101"
    using len by simp
  with results_truncated [OF t q collates_compare_code_points d]
  have "length (results (search_effect compare_code_points crowded_state)) = 100"
    by (simp add: Let_def)
  then show ?thesis
    using t q collates_compare_code_points digits len by simp
qed

text \<open>
  Claim C8.  In an index built from the empty one by calls of \<open>insert\<close> only, every record
  returned by a search carries a code that the searched prefix is a prefix of: \<open>insert\<close> writes
  the code it walks along into the record it stores.  This holds for every prefix, the
  non-empty ones of the claim among them.
\<close>

theorem search_results_extend_prefix:
  "e \<in> set (Trie_search (build ops) p) \<Longrightarrow> prefix p (code e)"
  using codes_ok_search_node [OF codes_ok_build, of e p ops] by (simp add: Trie_search_def)

theorem search_results_extend_prefix_witness:
  "\<lparr>char = str ''b'', def = str ''y'', cantonese = None, pinyin = str ''q'', code = str ''1234''\<rparr>
     \<in> set (Trie_search
         (build [(str ''123'', \<lparr>char = str ''a'', def = str ''x'', cantonese = None, pinyin = str ''p''\<rparr>),
                 (str ''1234'', \<lparr>char = str ''b'', def = str ''y'', cantonese = None, pinyin = str ''q''\<rparr>),
                 (str ''2'', \<lparr>char = str ''c'', def = str ''z'', cantonese = None, pinyin = str ''r''\<rparr>)])
         (str ''12''))
   \<and> prefix (str ''12'') (str ''1234'')"
proof -
  let ?e = "\<lparr>char = str ''b'', def = str ''y'', cantonese = None, pinyin = str ''q'', code = str ''1234''\<rparr>"
  let ?ops = "[(str ''123'', \<lparr>char = str ''a'', def = str ''x'', cantonese = None, pinyin = str ''p''\<rparr>),
               (str ''1234'', \<lparr>char = str ''b'', def = str ''y'', cantonese = None, pinyin = str ''q''\<rparr>),
               (str ''2'', \<lparr>char = str ''c'', def = str ''z'', cantonese = None, pinyin = str ''r''\<rparr>)]"
  have mem: "?e \<in> set (Trie_search (build ?ops) (str ''12''))"
    by code_simp
  from search_results_extend_prefix [OF mem] have "prefix (str ''12'') (str ''1234'')"
    by simp
  with mem show ?thesis by simp
qed

text \<open>
  Claim C9.  After a successful run of the reader the published count equals the number of
  records stored in the published index, summed over all its nodes.
\<close>

theorem accepted_count_is_index_size:
  assumes "processCSV_try text = Inr (t, n)"
  shows "trie (processCSV st text) = Some t \<and> datasetSize (processCSV st text) = n \<and>
         n = total_records (root t)"
proof -
  from assms have "(t, n) = process_lines (detectCodeIndex (split newline text)) (split newline text)"
    by (rule processCSV_try_Inr)
  then have "n = total_records (root t)"
    using process_lines_count [of "detectCodeIndex (split newline text)" "split newline text"]
    by (metis fst_conv snd_conv)
  then show ?thesis using assms by (simp add: processCSV_def)
qed

theorem accepted_count_is_index_size_witness:
  "processCSV_try sample_text
     = Inr (fst (process_lines 10 (split newline sample_text)),
            snd (process_lines 10 (split newline sample_text))) \<and>
   datasetSize (processCSV initial_state sample_text) = 3 \<and>
   total_records (root (fst (process_lines 10 (split newline sample_text)))) = 3"
proof -
  have n: "snd (process_lines 10 (split newline sample_text)) = 3"
    by code_simp
  from accepted_count_is_index_size [OF sample_try, of initial_state]
  show ?thesis using sample_try n by simp
qed

text \<open>
  Claim C10.  When the body of the reader throws, the handler changes the error message, the
  loading flag and the uploader flag only: the published index and the count stay as they were,
  and the search effect gives the same results as before the failed run.
\<close>

theorem failed_ingestion_keeps_index:
  assumes "processCSV_try text = Inl err"
  shows "processCSV st text = processCSV_catch st err \<and>
         processCSV_catch st err
           = st\<lparr>error := Some (if message err = [] then ''Failed to process data.'' else message err),
                loading := False, showUploader := True\<rparr> \<and>
         trie (processCSV st text) = trie st \<and>
         datasetSize (processCSV st text) = datasetSize st \<and>
         search_effect lc ((processCSV st text)\<lparr>inputCode := q\<rparr>)
           = (search_effect lc (st\<lparr>inputCode := q\<rparr>))
               \<lparr>error := error (processCSV st text), loading := False, showUploader := True\<rparr>"
  using assms
  by (simp add: processCSV_def processCSV_catch_def search_effect_def Let_def split: option.splits)

theorem failed_ingestion_keeps_index_witness:
  "processCSV_try (str ''not a data set'')
     = Inl (Error ''Could not automatically detect the Four Corner Code column in the CSV.'') \<and>
   trie (processCSV sample_state (str ''not a data set'')) = trie sample_state \<and>
   datasetSize (processCSV sample_state (str ''not a data set'')) = 3 \<and>
   error (processCSV sample_state (str ''not a data set''))
     = Some ''Could not automatically detect the Four Corner Code column in the CSV.''"
proof -
  have f: "processCSV_try (str ''not a data set'')
     = Inl (Error ''Could not automatically detect the Four Corner Code column in the CSV.'')"
    by code_simp
  have n: "datasetSize sample_state = 3"
    by code_simp
  from failed_ingestion_keeps_index [OF f, of sample_state]
  show ?thesis using f n by (simp add: processCSV_catch_def)
qed

end
